theory Spec2Isabelle
  imports
    Main
    "HOL-Library.Sublist"
    "HOL-Library.Multiset"
    "HOL-Library.Char_ord"
    "HOL-Library.List_Lexorder"
begin

section \<open>LESS variable hints for Brackets: the hint provider of main.js\<close>

text \<open>
  The development embeds the hint provider \<^verbatim>\<open>LESSHint\<close> of \<^verbatim>\<open>main.js\<close>.
  A JavaScript string is a sequence of code units; the model takes the code units below
  256, so a string is a \<^typ>\<open>string\<close> and \<^typ>\<open>char\<close> is one code unit. On this range
  \<^verbatim>\<open>toLowerCase\<close> maps code unit to code unit, \<^verbatim>\<open>\w\<close> is
  \<^verbatim>\<open>[A-Za-z0-9_]\<close> and \<^verbatim>\<open>\s\<close> is the set of code units 9 to 13, 32 and 160.
\<close>

subsection \<open>Strings and arrays of JavaScript\<close>

definition lowerChar :: "char \<Rightarrow> char" where
  \<comment> \<open>the lower-case mapping of one code unit below 256: A to Z, and the upper-case
      letters 192 to 222 of Latin-1 (215, the multiplication sign, has no case)\<close>
  "lowerChar c =
     (let n = (of_char c :: nat)
      in if (65 \<le> n \<and> n \<le> 90) \<or> (192 \<le> n \<and> n \<le> 222 \<and> n \<noteq> 215)
         then char_of (n + 32) else c)"

definition toLowerCase :: "string \<Rightarrow> string" where
  "toLowerCase s = map lowerChar s"

definition split_empty :: "string \<Rightarrow> char list" where
  \<comment> \<open>\<^verbatim>\<open>s.split("")\<close>: the array of the code units of \<^verbatim>\<open>s\<close>, empty for the empty string\<close>
  "split_empty s = s"

fun indexOf :: "'a list \<Rightarrow> 'a \<Rightarrow> int" where
  \<comment> \<open>\<^verbatim>\<open>indexOf\<close> of a string (for one code unit) and of an array: the first index, or -1\<close>
  "indexOf [] x = - 1"
| "indexOf (y # ys) x =
     (if y = x then 0
      else (let i = indexOf ys x in if i = - 1 then - 1 else i + 1))"

definition substr :: "string \<Rightarrow> int \<Rightarrow> string" where
  \<comment> \<open>\<^verbatim>\<open>s.substr(start)\<close>: a negative start counts from the end\<close>
  "substr s start =
     (if start < 0 then drop (nat (int (length s) + start)) s else drop (nat start) s)"

definition element :: "'a list \<Rightarrow> int \<Rightarrow> 'a option" where
  \<comment> \<open>\<^verbatim>\<open>xs[i]\<close>: \<^verbatim>\<open>undefined\<close> (here \<open>None\<close>) outside the array, also at -1\<close>
  "element xs i = (if 0 \<le> i \<and> nat i < length xs then Some (xs ! nat i) else None)"

subsection \<open>Positions and matches\<close>

record pos =
  line :: nat
  ch :: nat

text \<open>
  The result of \<^verbatim>\<open>regex.exec\<close> for a pattern with two groups: the array of the whole
  match and of the two groups, with the index of the match in the text.
\<close>

record rmatch =
  index :: nat
  m0 :: string
  m1 :: string
  m2 :: string

subsection \<open>Regular expressions\<close>

definition word_char :: "char \<Rightarrow> bool" where
  \<comment> \<open>\<^verbatim>\<open>\w\<close>\<close>
  "word_char c =
     ((CHR ''a'' \<le> c \<and> c \<le> CHR ''z'') \<or> (CHR ''A'' \<le> c \<and> c \<le> CHR ''Z'')
      \<or> (CHR ''0'' \<le> c \<and> c \<le> CHR ''9'') \<or> c = CHR ''_'')"

definition space_char :: "char \<Rightarrow> bool" where
  \<comment> \<open>\<^verbatim>\<open>\s\<close>: tab, line feed, vertical tab, form feed, carriage return, space, no-break space\<close>
  "space_char c =
     (c = CHR 0x09 \<or> c = CHR 0x0A \<or> c = CHR 0x0B \<or> c = CHR 0x0C \<or> c = CHR 0x0D
      \<or> c = CHR '' '' \<or> c = CHR 0xA0)"

definition name_char :: "char \<Rightarrow> bool" where
  \<comment> \<open>\<^verbatim>\<open>[\w\-]\<close>\<close>
  "name_char c = (word_char c \<or> c = CHR ''-'')"

definition value_char :: "char \<Rightarrow> bool" where
  \<comment> \<open>\<^verbatim>\<open>[^\n;]\<close>\<close>
  "value_char c = (c \<noteq> CHR 0x0A \<and> c \<noteq> CHR '';'')"

definition hint_char :: "char \<Rightarrow> bool" where
  \<comment> \<open>\<^verbatim>\<open>[@\w\-]\<close>\<close>
  "hint_char c = (c = CHR ''@'' \<or> word_char c \<or> c = CHR ''-'')"

text \<open>
  A pattern is matched by backtracking, each piece with the continuation that matches
  the rest of the pattern. The flag \<^verbatim>\<open>i\<close> changes nothing in the two patterns of
  the provider: \<^verbatim>\<open>@\<close>, \<^verbatim>\<open>:\<close>, \<^verbatim>\<open>-\<close>, \<^verbatim>\<open>;\<close> and the line feed have
  no other case, and \<^verbatim>\<open>\w\<close> holds both cases of every letter it holds.
\<close>

definition lit :: "char \<Rightarrow> string \<Rightarrow> (string \<Rightarrow> 'a option) \<Rightarrow> 'a option" where
  \<comment> \<open>one literal character\<close>
  "lit c s k = (case s of [] \<Rightarrow> None | x # r \<Rightarrow> if x = c then k r else None)"

fun backtrack :: "nat \<Rightarrow> nat \<Rightarrow> string \<Rightarrow> (string \<Rightarrow> string \<Rightarrow> 'a option) \<Rightarrow> 'a option" where
  \<comment> \<open>\<open>n\<close> characters for the piece, then the rest of the pattern; one character less
      when the rest fails, down to \<open>lo\<close> characters\<close>
  "backtrack lo n s k =
     (case k (take n s) (drop n s) of
        Some r \<Rightarrow> Some r
      | None \<Rightarrow> if lo < n then backtrack lo (n - 1) s k else None)"

definition greedy ::
  "nat \<Rightarrow> (char \<Rightarrow> bool) \<Rightarrow> string \<Rightarrow> (string \<Rightarrow> string \<Rightarrow> 'a option) \<Rightarrow> 'a option" where
  \<comment> \<open>a greedy quantifier on a character class, with at least \<open>lo\<close> characters\<close>
  "greedy lo cls s k =
     (let n = length (takeWhile cls s) in if n < lo then None else backtrack lo n s k)"

definition many0 :: "(char \<Rightarrow> bool) \<Rightarrow> string \<Rightarrow> (string \<Rightarrow> string \<Rightarrow> 'a option) \<Rightarrow> 'a option" where
  "many0 = greedy 0"

definition many1 :: "(char \<Rightarrow> bool) \<Rightarrow> string \<Rightarrow> (string \<Rightarrow> string \<Rightarrow> 'a option) \<Rightarrow> 'a option" where
  "many1 = greedy 1"

definition less_pattern :: "string \<Rightarrow> (string \<times> string \<times> string) option" where
  \<comment> \<open>\<^verbatim>\<open>@([\w\-]+)\s*:\s*([^\n;]+)\<close> at the start of \<open>s\<close>: the two groups and the text
      after the match\<close>
  "less_pattern s =
     lit CHR ''@'' s (\<lambda>s1.
     many1 name_char s1 (\<lambda>g1 s2.
     many0 space_char s2 (\<lambda>_ s3.
     lit CHR '':'' s3 (\<lambda>s4.
     many0 space_char s4 (\<lambda>_ s5.
     many1 value_char s5 (\<lambda>g2 s6.
     Some (g1, g2, s6)))))))"

text \<open>A \<^verbatim>\<open>RegExp\<close> object with the flag \<^verbatim>\<open>g\<close>: its pattern and its \<^verbatim>\<open>lastIndex\<close>.\<close>

record regexp =
  pattern :: "string \<Rightarrow> (string \<times> string \<times> string) option"
  lastIndex :: nat

function search :: "(string \<Rightarrow> (string \<times> string \<times> string) option) \<Rightarrow> string \<Rightarrow> nat \<Rightarrow> rmatch option" where
  \<comment> \<open>the first match at an index from \<open>i\<close> on\<close>
  "search p text i =
     (if length text < i then None
      else case p (drop i text) of
             Some (g1, g2, rest) \<Rightarrow>
               Some \<lparr>index = i, m0 = take (length text - i - length rest) (drop i text),
                     m1 = g1, m2 = g2\<rparr>
           | None \<Rightarrow> search p text (Suc i))"
  by pat_completeness auto
termination
  by (relation "measure (\<lambda>(p, text, i). Suc (length text) - i)") auto

definition exec :: "regexp \<Rightarrow> string \<Rightarrow> rmatch option \<times> regexp" where
  \<comment> \<open>\<^verbatim>\<open>regex.exec(text)\<close>: the match or \<^verbatim>\<open>null\<close>, and the object with its new
      \<^verbatim>\<open>lastIndex\<close>\<close>
  "exec regex text =
     (case search (pattern regex) text (lastIndex regex) of
        None \<Rightarrow> (None, regex\<lparr>lastIndex := 0\<rparr>)
      | Some m \<Rightarrow> (Some m, regex\<lparr>lastIndex := index m + length (m0 m)\<rparr>))"

definition test :: "(char \<Rightarrow> bool) \<Rightarrow> string \<Rightarrow> bool" where
  \<comment> \<open>\<^verbatim>\<open>test\<close> of a pattern that is one character class: some character of \<open>s\<close> is in it\<close>
  "test cls s = list_ex cls s"

subsection \<open>The host and the provider\<close>

text \<open>
  The editor and the documents belong to Brackets. The provider reads the position of the
  cursor of an editor, the text of the document of an editor and a range of the current
  document, and it asks the current document to replace a range.
\<close>

type_synonym editor = nat

record host =
  cursorPosOf :: "editor \<Rightarrow> pos"
  documentText :: "editor \<Rightarrow> string"
  documentRange :: "pos \<Rightarrow> pos \<Rightarrow> string"

datatype hostcall = ReplaceRange "string option" "pos option" pos

datatype error = TypeError

record lesshint =
  implicitChar :: string
  regex :: regexp
  chars :: "char \<Rightarrow> bool"
  hints :: "string list"
  hintsHTML :: "string list"
  writtenSinceStart :: string
  startPos :: "pos option"
  editor :: "editor option"

definition LESSHint :: lesshint where
  \<comment> \<open>the constructor\<close>
  "LESSHint =
     \<lparr>implicitChar = ''@'',
      regex = \<lparr>pattern = less_pattern, lastIndex = 0\<rparr>,
      chars = hint_char,
      hints = [],
      hintsHTML = [],
      writtenSinceStart = [],
      startPos = None,
      editor = None\<rparr>"

record hintResponse =
  r_hints :: "string list"
  r_match :: "string option"
  selectInitial :: bool
  handleWideResults :: bool

subsection \<open>hasHints\<close>

definition hasHints :: "lesshint \<Rightarrow> host \<Rightarrow> editor \<Rightarrow> string option \<Rightarrow> bool \<times> lesshint" where
  "hasHints this h ed typed =
     (let this = this\<lparr>editor := Some ed\<rparr>;
          this = this\<lparr>startPos := Some (cursorPosOf h ed)\<rparr>
      in ((case typed of
             None \<Rightarrow> False
           | Some c \<Rightarrow> if c = [] then False else c = implicitChar this),
          this))"

subsection \<open>validPosition and getText\<close>

definition validPosition :: "lesshint \<Rightarrow> host \<Rightarrow> string option \<Rightarrow> error + bool \<times> lesshint" where
  "validPosition this h typed =
     (if (case typed of None \<Rightarrow> False | Some c \<Rightarrow> c \<noteq> [] \<and> \<not> test (chars this) c)
      then Inr (False, this)
      else case editor this of
             None \<Rightarrow> Inl TypeError
           | Some ed \<Rightarrow>
               (let cursorPos = cursorPosOf h ed
                in case startPos this of
                     None \<Rightarrow> Inl TypeError
                   | Some start \<Rightarrow>
                       if line cursorPos = line start \<and> ch cursorPos \<ge> ch start
                       then Inr (True, this\<lparr>writtenSinceStart := documentRange h start cursorPos\<rparr>)
                       else Inr (False, this)))"

definition getText :: "lesshint \<Rightarrow> host \<Rightarrow> error + string" where
  "getText this h =
     (case editor this of None \<Rightarrow> Inl TypeError | Some ed \<Rightarrow> Inr (documentText h ed))"

subsection \<open>getAll\<close>

text \<open>
  The loop runs as long as \<^verbatim>\<open>exec\<close> finds a match; with a pattern that matches the
  empty string it never ends, so the result is optional.
\<close>

partial_function (option) getAll_loop ::
  "regexp \<Rightarrow> string \<Rightarrow> rmatch list \<Rightarrow> (rmatch list \<times> regexp) option" where
  "getAll_loop rx text matches =
     (case exec rx text of
        (None, rx') \<Rightarrow> Some (matches, rx')
      | (Some match, rx') \<Rightarrow> getAll_loop rx' text (matches @ [match]))"

declare getAll_loop.simps [code]

definition getAll :: "regexp \<Rightarrow> string \<Rightarrow> (rmatch list \<times> regexp) option" where
  "getAll rx text = getAll_loop rx text []"

subsection \<open>filterHints\<close>

fun written_in :: "string \<Rightarrow> char list \<Rightarrow> bool" where
  \<comment> \<open>the \<^verbatim>\<open>for\<close> loop of the callback, on the characters of \<^verbatim>\<open>written\<close> still to find\<close>
  "written_in hint [] = True"
| "written_in hint (w # ws) =
     (let index = indexOf hint w
      in if index = - 1 then False
         else written_in (substr hint (index + 1)) ws)"

definition filterHints :: "lesshint \<Rightarrow> rmatch list \<Rightarrow> rmatch list" where
  "filterHints this matches =
     (let written = split_empty (toLowerCase (writtenSinceStart this))
      in filter (\<lambda>match. let hint = toLowerCase (m1 match) in written_in hint written) matches)"

subsection \<open>processHints\<close>

definition compareMatches :: "rmatch \<Rightarrow> rmatch \<Rightarrow> int" where
  \<comment> \<open>the comparison function; strings compare by their code units\<close>
  "compareMatches match1 match2 =
     (let var1 = toLowerCase (m1 match1);
          var2 = toLowerCase (m1 match2)
      in if var1 > var2 then 1 else if var1 < var2 then - 1 else 0)"

text \<open>
  \<^verbatim>\<open>Array.prototype.sort\<close> is stable (ECMAScript 2019); with a comparison function
  that orders the elements, every stable sort gives the result of this insertion sort.
\<close>

fun insertSorted :: "('a \<Rightarrow> 'a \<Rightarrow> int) \<Rightarrow> 'a \<Rightarrow> 'a list \<Rightarrow> 'a list" where
  "insertSorted cmp x [] = [x]"
| "insertSorted cmp x (y # ys) =
     (if cmp x y > 0 then y # insertSorted cmp x ys else x # y # ys)"

definition array_sort :: "('a \<Rightarrow> 'a \<Rightarrow> int) \<Rightarrow> 'a list \<Rightarrow> 'a list" where
  "array_sort cmp xs = foldr (insertSorted cmp) xs []"

definition renderHint :: "rmatch \<Rightarrow> string" where
  "renderHint match =
     m1 match @ ''<span style='color:#a0a0a0; margin-left: 10px'>'' @ m2 match @ ''</span>''"

definition processHints :: "lesshint \<Rightarrow> rmatch list \<Rightarrow> lesshint" where
  "processHints this matches =
     (let matches = array_sort compareMatches matches;
          this = this\<lparr>hints := map m1 matches\<rparr>
      in this\<lparr>hintsHTML := map renderHint matches\<rparr>)"

subsection \<open>getHints\<close>

definition getHints ::
  "lesshint \<Rightarrow> host \<Rightarrow> string option \<Rightarrow> (error + hintResponse option \<times> lesshint) option" where
  \<comment> \<open>\<open>None\<close> when the loop of \<^verbatim>\<open>getAll\<close> does not end; \<open>Inr (None, _)\<close> is the
      result \<^verbatim>\<open>null\<close>\<close>
  "getHints this h typed =
     (case validPosition this h typed of
        Inl e \<Rightarrow> Some (Inl e)
      | Inr (False, this) \<Rightarrow> Some (Inr (None, this))
      | Inr (True, this) \<Rightarrow>
          (case getText this h of
             Inl e \<Rightarrow> Some (Inl e)
           | Inr text \<Rightarrow>
               (case getAll (regex this) text of
                  None \<Rightarrow> None
                | Some (matches, rx') \<Rightarrow>
                    (let this = this\<lparr>regex := rx'\<rparr>;
                         matches = filterHints this matches;
                         this = processHints this matches
                     in Some (Inr (Some \<lparr>r_hints = hintsHTML this, r_match = None,
                                          selectInitial = True, handleWideResults = False\<rparr>,
                                   this))))))"

subsection \<open>insertHint\<close>

definition insertHint :: "lesshint \<Rightarrow> host \<Rightarrow> string \<Rightarrow> error + hostcall list" where
  \<comment> \<open>the calls made on the current document; the fields of the provider are not assigned\<close>
  "insertHint this h hint =
     (let index = indexOf (hintsHTML this) hint;
          hint = element (hints this) index
      in case editor this of
           None \<Rightarrow> Inl TypeError
         | Some ed \<Rightarrow>
             (let pos = cursorPosOf h ed
              in Inr [ReplaceRange hint (startPos this) pos]))"

subsection \<open>Occurrences of the pattern in a text\<close>

text \<open>
  The pattern as the specification describes it, read as a description of texts:
  \<^verbatim>\<open>@\<close>, one or more characters of a name (letters, digits, hyphen, underscore),
  optional white space, a colon, optional white space, one or more characters of a value
  (no line feed, no semicolon). These two predicates are not taken from the code. A match is
  a \<^emph>\<open>declaration\<close> of a text when its whole is such a piece of the text at its index with
  the name and the value as its groups; a declaration \<^emph>\<open>starts at\<close> an index when the
  text from this index on begins with such a piece.
\<close>

definition is_declaration :: "string \<Rightarrow> rmatch \<Rightarrow> bool" where
  "is_declaration text m \<longleftrightarrow>
     (\<exists>ws1 ws2. m0 m = CHR ''@'' # m1 m @ ws1 @ CHR '':'' # ws2 @ m2 m
        \<and> list_all space_char ws1 \<and> list_all space_char ws2)
     \<and> m1 m \<noteq> [] \<and> list_all name_char (m1 m)
     \<and> m2 m \<noteq> [] \<and> list_all value_char (m2 m)
     \<and> index m + length (m0 m) \<le> length text
     \<and> take (length (m0 m)) (drop (index m) text) = m0 m"

definition declaration_at :: "string \<Rightarrow> nat \<Rightarrow> bool" where
  "declaration_at text i \<longleftrightarrow>
     (\<exists>name ws1 ws2 val rest.
        drop i text = CHR ''@'' # name @ ws1 @ CHR '':'' # ws2 @ val @ rest
        \<and> name \<noteq> [] \<and> list_all name_char name
        \<and> list_all space_char ws1 \<and> list_all space_char ws2
        \<and> val \<noteq> [] \<and> list_all value_char val)"

subsection \<open>Example data\<close>

definition example_text :: string where
  "example_text = ''@color: red;'' @ [CHR 0x0A] @ ''@bg-color: blue;''"

definition twice_text :: string where
  "twice_text = ''@a: 1;'' @ [CHR 0x0A] @ ''@a: 1;''"

definition color_match :: rmatch where
  "color_match = \<lparr>index = 0, m0 = ''@color: red'', m1 = ''color'', m2 = ''red''\<rparr>"

definition bg_color_match :: rmatch where
  "bg_color_match =
     \<lparr>index = 13, m0 = ''@bg-color: blue'', m1 = ''bg-color'', m2 = ''blue''\<rparr>"

definition upper_color_match :: rmatch where
  "upper_color_match = \<lparr>index = 30, m0 = ''@Color: Red'', m1 = ''Color'', m2 = ''Red''\<rparr>"

text \<open>
  A host with one document, given by its lines, and the cursor of its editor. The provider
  asks for ranges inside one line only.
\<close>

fun join_lines :: "string list \<Rightarrow> string" where
  "join_lines [] = []"
| "join_lines [l] = l"
| "join_lines (l # ls) = l @ [CHR 0x0A] @ join_lines ls"

definition editor_host :: "string list \<Rightarrow> pos \<Rightarrow> host" where
  "editor_host ls cursor =
     \<lparr>cursorPosOf = (\<lambda>_. cursor),
      documentText = (\<lambda>_. join_lines ls),
      documentRange = (\<lambda>start end.
        if line start = line end \<and> line start < length ls
        then take (ch end - ch start) (drop (ch start) (ls ! line start)) else [])\<rparr>"

definition example_lines :: "string list" where
  "example_lines = [''@color: red;'', ''@bg-color: blue;'', ''a { color: @c'']"

definition underscore_lines :: "string list" where
  "underscore_lines = [''@color: red;'', ''@bg-color: blue;'', ''a { color: @_'']"

definition typing_state :: lesshint where
  \<comment> \<open>the provider after \<^verbatim>\<open>@\<close> was typed at the end of the third line\<close>
  "typing_state = snd (hasHints LESSHint (editor_host example_lines \<lparr>line = 2, ch = 12\<rparr>) 0 (Some ''@''))"

definition shown_state :: lesshint where
  \<comment> \<open>the provider after \<^verbatim>\<open>c\<close> was typed and the hints were computed\<close>
  "shown_state =
     processHints (typing_state\<lparr>writtenSinceStart := ''c''\<rparr>) [color_match, bg_color_match]"

section \<open>Properties\<close>

declare backtrack.simps [simp del] search.simps [simp del]

subsection \<open>The filter keeps the names that hold the written text as a subsequence\<close>

lemma indexOf_ge: "- 1 \<le> indexOf xs x"
  by (induction xs) (auto simp: Let_def)

lemma indexOf_none: "indexOf xs x = - 1 \<longleftrightarrow> x \<notin> set xs"
proof (induction xs)
  case Nil
  show ?case by simp
next
  case (Cons y ys)
  show ?case using Cons indexOf_ge [of ys x] by (auto simp: Let_def)
qed

lemma indexOf_split:
  "x \<in> set xs \<Longrightarrow>
     \<exists>pre post. xs = pre @ x # post \<and> x \<notin> set pre \<and> indexOf xs x = int (length pre)"
proof (induction xs)
  case Nil
  then show ?case by simp
next
  case (Cons y ys)
  show ?case
  proof (cases "y = x")
    case True
    then have "y # ys = [] @ x # ys \<and> x \<notin> set [] \<and> indexOf (y # ys) x = int (length ([]::'a list))"
      by simp
    then show ?thesis by blast
  next
    case False
    with Cons.prems have "x \<in> set ys" by simp
    from Cons.IH [OF this] obtain pre post
      where p: "ys = pre @ x # post" "x \<notin> set pre" "indexOf ys x = int (length pre)"
      by blast
    have "y # ys = (y # pre) @ x # post \<and> x \<notin> set (y # pre)
            \<and> indexOf (y # ys) x = int (length (y # pre))"
      using False p by (simp add: Let_def)
    then show ?thesis by blast
  qed
qed

lemma subseq_skip_prefix:
  "w \<notin> set pre \<Longrightarrow> subseq (w # ws) (pre @ w # post) \<longleftrightarrow> subseq ws post"
  by (induction pre) auto

lemma written_in_subseq: "written_in hint ws \<longleftrightarrow> subseq ws hint"
proof (induction ws arbitrary: hint)
  case Nil
  show ?case by simp
next
  case (Cons w ws)
  show ?case
  proof (cases "w \<in> set hint")
    case False
    then have "\<not> subseq (w # ws) hint"
      by (auto dest: list_emb_set)
    moreover have "\<not> written_in hint (w # ws)"
      using False by (simp add: indexOf_none)
    ultimately show ?thesis by simp
  next
    case True
    from indexOf_split [OF this] obtain pre post
      where p: "hint = pre @ w # post" "w \<notin> set pre" "indexOf hint w = int (length pre)"
      by blast
    have "substr hint (indexOf hint w + 1) = post"
      using p by (simp add: substr_def nat_add_distrib)
    then have "written_in hint (w # ws) \<longleftrightarrow> subseq ws post"
      using p(3) Cons.IH [of post] by (simp add: Let_def)
    also have "\<dots> \<longleftrightarrow> subseq (w # ws) (pre @ w # post)"
      using p(2) by (simp add: subseq_skip_prefix)
    finally show ?thesis using p(1) by simp
  qed
qed

lemma lower_examples:
  "toLowerCase ''BC'' = ''bc''" "toLowerCase ''color'' = ''color''"
  "toLowerCase ''bg-color'' = ''bg-color''" "toLowerCase ''c'' = ''c''" 
  "toLowerCase ''@c'' = ''@c''" "toLowerCase ''Color'' = ''color''"
  by code_simp+

text \<open>
  Claim C3. For every written text and every list of matches, \<^verbatim>\<open>filterHints\<close> keeps
  a match if and only if the written text in lower case is a subsequence (in order, not
  necessarily contiguous) of the name of the match in lower case: the loop that looks for
  each written character from the current position in the name, and goes on after the
  occurrence found, accepts exactly these names. The matches kept stay in their order.
\<close>

theorem filterHints_subsequence:
  "filterHints this matches =
     filter (\<lambda>match. subseq (toLowerCase (writtenSinceStart this)) (toLowerCase (m1 match)))
       matches"
  by (simp add: filterHints_def split_empty_def written_in_subseq)

theorem filterHints_subsequence_witness:
  "filterHints (LESSHint\<lparr>writtenSinceStart := ''BC''\<rparr>) [color_match, bg_color_match]
     = [bg_color_match]"
  using filterHints_subsequence [of "LESSHint\<lparr>writtenSinceStart := ''BC''\<rparr>" "[color_match, bg_color_match]"]
  by (simp add: lower_examples color_match_def bg_color_match_def)

text \<open>
  Claim C10. When the written text is empty, \<^verbatim>\<open>filterHints\<close> returns the list of
  matches it was given: every match is kept, in the same order.
\<close>

theorem filterHints_empty:
  "writtenSinceStart this = [] \<Longrightarrow> filterHints this matches = matches"
  by (simp add: filterHints_def split_empty_def toLowerCase_def)

theorem filterHints_empty_witness:
  "writtenSinceStart LESSHint = [] \<and> filterHints LESSHint [color_match, bg_color_match, color_match] = [color_match, bg_color_match, color_match]"
proof -
  have h: "writtenSinceStart LESSHint = []" by (simp add: LESSHint_def)
  show ?thesis using h filterHints_empty [OF h] by simp
qed


subsection \<open>The hints are sorted and the two arrays are aligned\<close>

lemma insertSorted_insort_key:
  "insertSorted compareMatches x ys = insort_key (\<lambda>m. toLowerCase (m1 m)) x ys"
  by (induction ys) (auto simp: compareMatches_def Let_def)

lemma array_sort_sort_key:
  "array_sort compareMatches ms = sort_key (\<lambda>m. toLowerCase (m1 m)) ms"
  by (induction ms) (simp_all add: array_sort_def insertSorted_insort_key)

lemma hints_processHints:
  "hints (processHints this ms) = map m1 (array_sort compareMatches ms)"
  by (simp add: processHints_def Let_def)

lemma hintsHTML_processHints:
  "hintsHTML (processHints this ms) = map renderHint (array_sort compareMatches ms)"
  by (simp add: processHints_def Let_def)

text \<open>
  Claim C4. After every call of \<^verbatim>\<open>processHints\<close> the array \<^verbatim>\<open>hints\<close> is sorted
  by name, compared in lower case code unit by code unit, in ascending order; the sorted
  matches are a rearrangement of the matches given in which the matches of one lower-case
  name keep their relative order; \<^verbatim>\<open>hints\<close> and \<^verbatim>\<open>hintsHTML\<close> have the same
  length, and at every index \<open>i\<close> the entry of \<^verbatim>\<open>hints\<close> is the name of the
  \<open>i\<close>-th sorted match and the entry of \<^verbatim>\<open>hintsHTML\<close> is that name followed by the
  value of the same match inside the \<^verbatim>\<open>span\<close> element.
\<close>

theorem processHints_sorted_aligned:
  "mset (array_sort compareMatches matches) = mset matches
   \<and> (\<forall>k. filter (\<lambda>m. toLowerCase (m1 m) = k) (array_sort compareMatches matches)
           = filter (\<lambda>m. toLowerCase (m1 m) = k) matches)
   \<and> sorted_wrt (\<lambda>a b. toLowerCase a \<le> toLowerCase b) (hints (processHints this matches))
   \<and> length (hints (processHints this matches)) = length (hintsHTML (processHints this matches))
   \<and> (\<forall>i < length (hints (processHints this matches)).
         hints (processHints this matches) ! i = m1 (array_sort compareMatches matches ! i)
         \<and> hintsHTML (processHints this matches) ! i
            = m1 (array_sort compareMatches matches ! i)
              @ ''<span style='color:#a0a0a0; margin-left: 10px'>''
              @ m2 (array_sort compareMatches matches ! i) @ ''</span>'')"
proof -
  let ?key = "\<lambda>m. toLowerCase (m1 m)"
  let ?ordered = "array_sort compareMatches matches"
  have perm: "mset ?ordered = mset matches"
    by (simp add: array_sort_sort_key)
  have stable: "\<forall>k. filter (\<lambda>m. ?key m = k) ?ordered = filter (\<lambda>m. ?key m = k) matches"
    by (simp add: array_sort_sort_key sort_key_stable)
  have "sorted (map ?key ?ordered)"
    by (simp add: array_sort_sort_key)
  then have "sorted_wrt (\<lambda>a b. toLowerCase a \<le> toLowerCase b) (map m1 ?ordered)"
    by (simp add: sorted_wrt_map)
  then have ordered: "sorted_wrt (\<lambda>a b. toLowerCase a \<le> toLowerCase b) (hints (processHints this matches))"
    by (simp add: hints_processHints)
  have len: "length (hints (processHints this matches)) = length (hintsHTML (processHints this matches))"
    by (simp add: hints_processHints hintsHTML_processHints)
  have aligned: "\<forall>i < length (hints (processHints this matches)).
         hints (processHints this matches) ! i = m1 (?ordered ! i)
         \<and> hintsHTML (processHints this matches) ! i
            = m1 (?ordered ! i) @ ''<span style='color:#a0a0a0; margin-left: 10px'>''
              @ m2 (?ordered ! i) @ ''</span>''"
    by (simp add: hints_processHints hintsHTML_processHints renderHint_def)
  from perm stable ordered len aligned show ?thesis by blast
qed

lemma example_sorted:
  "array_sort compareMatches [upper_color_match, bg_color_match, color_match]
     = [bg_color_match, upper_color_match, color_match]"
  by (simp add: array_sort_def compareMatches_def color_match_def bg_color_match_def
        upper_color_match_def lower_examples)

lemma example_hints:
  "hints (processHints LESSHint [upper_color_match, bg_color_match, color_match])
     = [''bg-color'', ''Color'', ''color'']"
  unfolding hints_processHints example_sorted
  by (simp add: color_match_def bg_color_match_def upper_color_match_def)

lemma example_hintsHTML:
  "hintsHTML (processHints LESSHint [upper_color_match, bg_color_match, color_match])
     = [''bg-color<span style='color:#a0a0a0; margin-left: 10px'>blue</span>'',
        ''Color<span style='color:#a0a0a0; margin-left: 10px'>Red</span>'',
        ''color<span style='color:#a0a0a0; margin-left: 10px'>red</span>'']"
  unfolding hintsHTML_processHints example_sorted
  by (simp add: color_match_def bg_color_match_def upper_color_match_def renderHint_def)

theorem processHints_sorted_aligned_witness:
  "hints (processHints LESSHint [upper_color_match, bg_color_match, color_match])
     = [''bg-color'', ''Color'', ''color'']
   \<and> hintsHTML (processHints LESSHint [upper_color_match, bg_color_match, color_match])
       = [''bg-color<span style='color:#a0a0a0; margin-left: 10px'>blue</span>'',
          ''Color<span style='color:#a0a0a0; margin-left: 10px'>Red</span>'',
          ''color<span style='color:#a0a0a0; margin-left: 10px'>red</span>'']"
  using processHints_sorted_aligned [of "[upper_color_match, bg_color_match, color_match]" LESSHint]
  by (simp add: example_hints example_hintsHTML)

subsection \<open>The pattern and its matches\<close>

lemma backtrack_sound:
  "backtrack lo n s k = Some r \<Longrightarrow> lo \<le> n \<Longrightarrow>
     \<exists>j. lo \<le> j \<and> j \<le> n \<and> k (take j s) (drop j s) = Some r"
proof (induction lo n s k rule: backtrack.induct)
  case (1 lo n s k)
  show ?case
  proof (cases "k (take n s) (drop n s)")
    case (Some r')
    with "1.prems" have "k (take n s) (drop n s) = Some r"
      by (simp add: backtrack.simps [of lo n])
    with "1.prems" show ?thesis by blast
  next
    case None
    with "1.prems" have lt: "lo < n" and rec: "backtrack lo (n - 1) s k = Some r"
      by (auto simp: backtrack.simps [of lo n] split: if_splits)
    from lt have "lo \<le> n - 1" by simp
    from "1.IH" [OF None lt rec this] obtain j
      where "lo \<le> j" "j \<le> n - 1" "k (take j s) (drop j s) = Some r" by blast
    then show ?thesis by (intro exI [of _ j]) auto
  qed
qed

lemma backtrack_complete:
  "lo \<le> j \<Longrightarrow> j \<le> n \<Longrightarrow> k (take j s) (drop j s) \<noteq> None \<Longrightarrow> backtrack lo n s k \<noteq> None"
proof (induction lo n s k rule: backtrack.induct)
  case (1 lo n s k)
  show ?case
  proof (cases "k (take n s) (drop n s)")
    case (Some r')
    then show ?thesis by (simp add: backtrack.simps [of lo n])
  next
    case None
    with "1.prems" have "j \<noteq> n" by auto
    with "1.prems" have lt: "lo < n" and le: "j \<le> n - 1" by auto
    from "1.IH" [OF None lt "1.prems"(1) le "1.prems"(3)] None lt
    show ?thesis by (simp add: backtrack.simps [of lo n])
  qed
qed

lemma take_takeWhile_all:
  "j \<le> length (takeWhile P s) \<Longrightarrow> list_all P (take j s)"
  by (induction s arbitrary: j) (auto simp: take_Cons' split: if_splits)

lemma greedy_sound:
  assumes "greedy lo cls s k = Some r"
  shows "\<exists>x rest. s = x @ rest \<and> lo \<le> length x \<and> list_all cls x \<and> k x rest = Some r"
proof -
  let ?n = "length (takeWhile cls s)"
  from assms have le: "lo \<le> ?n" and bt: "backtrack lo ?n s k = Some r"
    by (auto simp: greedy_def Let_def split: if_splits)
  from backtrack_sound [OF bt le] obtain j
    where j: "lo \<le> j" "j \<le> ?n" "k (take j s) (drop j s) = Some r" by blast
  have "j \<le> length s" using j(2) length_takeWhile_le [of cls s] by simp
  then have "lo \<le> length (take j s)" using j(1) by simp
  moreover have "list_all cls (take j s)" using j(2) by (rule take_takeWhile_all)
  moreover have "s = take j s @ drop j s" by simp
  ultimately show ?thesis using j(3) by blast
qed

lemma length_takeWhile_prefix:
  "list_all P x \<Longrightarrow> length x \<le> length (takeWhile P (x @ rest))"
  by (induction x) auto

lemma greedy_complete:
  assumes "list_all cls x" "lo \<le> length x" "k x rest \<noteq> None"
  shows "greedy lo cls (x @ rest) k \<noteq> None"
proof -
  let ?s = "x @ rest"
  let ?n = "length (takeWhile cls ?s)"
  have le: "length x \<le> ?n" using assms(1) by (rule length_takeWhile_prefix)
  have "k (take (length x) ?s) (drop (length x) ?s) \<noteq> None" using assms(3) by simp
  with assms(2) le have "backtrack lo ?n ?s k \<noteq> None"
    by (rule backtrack_complete [where j = "length x"])
  with le assms(2) show ?thesis by (simp add: greedy_def Let_def)
qed

lemma lit_sound:
  assumes "lit c s k = Some r"
  obtains rest where "s = c # rest" "k rest = Some r"
  using assms by (cases s) (auto simp: lit_def split: if_splits)

lemma greedy_soundE:
  assumes "greedy lo cls s k = Some r"
  obtains x rest where "s = x @ rest" "lo \<le> length x" "list_all cls x" "k x rest = Some r"
  using greedy_sound [OF assms] by blast

lemma less_pattern_sound:
  assumes "less_pattern s = Some (g1, g2, rest)"
  shows "\<exists>ws1 ws2. s = CHR ''@'' # g1 @ ws1 @ CHR '':'' # ws2 @ g2 @ rest
           \<and> g1 \<noteq> [] \<and> list_all name_char g1 \<and> list_all space_char ws1
           \<and> list_all space_char ws2 \<and> g2 \<noteq> [] \<and> list_all value_char g2"
proof -
  let ?k6 = "\<lambda>g1 g2 s6. Some (g1 :: string, g2 :: string, s6 :: string)"
  let ?k5 = "\<lambda>g1 (_ :: string) s5. greedy 1 value_char s5 (?k6 g1)"
  let ?k4 = "\<lambda>g1 s4. greedy 0 space_char s4 (?k5 g1)"
  let ?k3 = "\<lambda>g1 (_ :: string) s3. lit CHR '':'' s3 (?k4 g1)"
  let ?k2 = "\<lambda>g1 s2. greedy 0 space_char s2 (?k3 g1)"
  let ?k1 = "\<lambda>s1. greedy 1 name_char s1 ?k2"
  from assms have "lit CHR ''@'' s ?k1 = Some (g1, g2, rest)"
    by (simp add: less_pattern_def many0_def many1_def)
  then obtain s1 where s1: "s = CHR ''@'' # s1" and a1: "?k1 s1 = Some (g1, g2, rest)"
    by (rule lit_sound)
  from a1 obtain n s2 where
    s2: "s1 = n @ s2" "1 \<le> length n" "list_all name_char n" and
    a2: "?k2 n s2 = Some (g1, g2, rest)"
    by (rule greedy_soundE)
  from a2 obtain ws1 s3 where
    s3: "s2 = ws1 @ s3" "list_all space_char ws1" and a3: "?k3 n ws1 s3 = Some (g1, g2, rest)"
    by (rule greedy_soundE)
  from a3 obtain s4 where s4: "s3 = CHR '':'' # s4" and a4: "?k4 n s4 = Some (g1, g2, rest)"
    by (rule lit_sound)
  from a4 obtain ws2 s5 where
    s5: "s4 = ws2 @ s5" "list_all space_char ws2" and a5: "?k5 n ws2 s5 = Some (g1, g2, rest)"
    by (rule greedy_soundE)
  from a5 obtain v s6 where
    s6: "s5 = v @ s6" "1 \<le> length v" "list_all value_char v" and
    a6: "?k6 n v s6 = Some (g1, g2, rest)"
    by (rule greedy_soundE)
  from a6 have eq: "n = g1" "v = g2" "s6 = rest" by simp_all
  have "s = CHR ''@'' # g1 @ ws1 @ CHR '':'' # ws2 @ g2 @ rest"
    using s1 s2(1) s3(1) s4 s5(1) s6(1) eq by simp
  moreover have "g1 \<noteq> []" "g2 \<noteq> []" using s2(2) s6(2) eq by auto
  moreover have "list_all name_char g1" "list_all value_char g2" using s2(3) s6(3) eq by simp_all
  ultimately show ?thesis using s3(2) s5(2) by (intro exI [of _ ws1] exI [of _ ws2]) simp
qed

lemma less_pattern_complete:
  assumes "n \<noteq> []" "list_all name_char n" "list_all space_char ws1"
    "list_all space_char ws2" "v \<noteq> []" "list_all value_char v"
  shows "less_pattern (CHR ''@'' # n @ ws1 @ CHR '':'' # ws2 @ v @ rest) \<noteq> None"
proof -
  have n1: "1 \<le> length n" and v1: "1 \<le> length v"
    using assms(1,5) by (simp_all add: Suc_le_eq)
  let ?k6 = "\<lambda>g1 g2 s6. Some (g1 :: string, g2 :: string, s6 :: string)"
  let ?k5 = "\<lambda>g1 (_ :: string) s5. many1 value_char s5 (?k6 g1)"
  let ?k4 = "\<lambda>g1 s4. many0 space_char s4 (?k5 g1)"
  let ?k3 = "\<lambda>g1 (_ :: string) s3. lit CHR '':'' s3 (?k4 g1)"
  let ?k2 = "\<lambda>g1 s2. many0 space_char s2 (?k3 g1)"
  have "?k6 n v rest \<noteq> None" by simp
  with assms(6) v1 have "greedy 1 value_char (v @ rest) (?k6 n) \<noteq> None"
    by (rule greedy_complete)
  then have "?k5 n ws2 (v @ rest) \<noteq> None" by (simp add: many1_def)
  with assms(4) have "greedy 0 space_char (ws2 @ v @ rest) (?k5 n) \<noteq> None"
    by (rule greedy_complete [where lo = 0 and k = "?k5 n", OF _ le0])
  then have "?k3 n ws1 (CHR '':'' # ws2 @ v @ rest) \<noteq> None"
    by (simp add: many0_def lit_def)
  with assms(3) have "greedy 0 space_char (ws1 @ CHR '':'' # ws2 @ v @ rest) (?k3 n) \<noteq> None"
    by (rule greedy_complete [where lo = 0 and k = "?k3 n", OF _ le0])
  then have "?k2 n (ws1 @ CHR '':'' # ws2 @ v @ rest) \<noteq> None"
    by (simp add: many0_def)
  with assms(2) n1 have "greedy 1 name_char (n @ ws1 @ CHR '':'' # ws2 @ v @ rest) ?k2 \<noteq> None"
    by (rule greedy_complete [where k = ?k2])
  then show ?thesis by (simp add: less_pattern_def lit_def many1_def)
qed

lemma search_Some:
  "search p t i = Some m \<Longrightarrow>
     i \<le> index m \<and> index m \<le> length t
     \<and> (\<exists>rest. p (drop (index m) t) = Some (m1 m, m2 m, rest)
           \<and> m0 m = take (length t - index m - length rest) (drop (index m) t))
     \<and> (\<forall>j. i \<le> j \<and> j < index m \<longrightarrow> p (drop j t) = None)"
proof (induction p t i rule: search.induct)
  case (1 p t i)
  from "1.prems" have le: "i \<le> length t"
    by (auto simp: search.simps [of p t i] split: if_splits)
  show ?case
  proof (cases "p (drop i t)")
    case (Some r)
    obtain g1 g2 rest where r: "r = (g1, g2, rest)" by (cases r)
    from "1.prems" Some r le
    have m: "m = \<lparr>index = i, m0 = take (length t - i - length rest) (drop i t),
                   m1 = g1, m2 = g2\<rparr>"
      by (simp add: search.simps [of p t i])
    show ?thesis using Some r le by (auto simp: m)
  next
    case None
    with "1.prems" le have rec: "search p t (Suc i) = Some m"
      by (simp add: search.simps [of p t i])
    from le have nlt: "\<not> length t < i" by simp
    from "1.IH" [OF nlt None rec]
    have ih: "Suc i \<le> index m" "index m \<le> length t"
      "\<exists>rest. p (drop (index m) t) = Some (m1 m, m2 m, rest)
           \<and> m0 m = take (length t - index m - length rest) (drop (index m) t)"
      "\<forall>j. Suc i \<le> j \<and> j < index m \<longrightarrow> p (drop j t) = None"
      by simp_all
    have "\<forall>j. i \<le> j \<and> j < index m \<longrightarrow> p (drop j t) = None"
    proof (intro allI impI)
      fix j assume j: "i \<le> j \<and> j < index m"
      show "p (drop j t) = None"
      proof (cases "j = i")
        case True
        then show ?thesis using None by simp
      next
        case False
        with j have "Suc i \<le> j \<and> j < index m" by simp
        with ih(4) show ?thesis by blast
      qed
    qed
    with ih(1,2,3) show ?thesis by simp
  qed
qed

lemma search_None:
  "search p t i = None \<Longrightarrow> i \<le> j \<Longrightarrow> j \<le> length t \<Longrightarrow> p (drop j t) = None"
proof (induction p t i rule: search.induct)
  case (1 p t i)
  from "1.prems" have le: "\<not> length t < i" by simp
  from "1.prems"(1) le have here: "p (drop i t) = None"
    by (auto simp: search.simps [of p t i] split: option.splits)
  with "1.prems"(1) le have rec: "search p t (Suc i) = None"
    by (simp add: search.simps [of p t i])
  show ?case
  proof (cases "j = i")
    case True
    then show ?thesis using here by simp
  next
    case False
    with "1.prems" have "Suc i \<le> j" by simp
    from "1.IH" [OF le here rec this "1.prems"(3)] show ?thesis .
  qed
qed

lemma declaration_matches:
  "declaration_at text i \<Longrightarrow> less_pattern (drop i text) \<noteq> None"
  unfolding declaration_at_def using less_pattern_complete by (elim exE conjE) simp

lemma declaration_in_text: "declaration_at text i \<Longrightarrow> i < length text"
proof (rule ccontr)
  assume d: "declaration_at text i" and "\<not> i < length text"
  then have "drop i text = []" by simp
  with d show False by (auto simp: declaration_at_def)
qed

lemma search_less_Some:
  assumes "search less_pattern text i = Some m"
  shows "is_declaration text m" "i \<le> index m" "0 < length (m0 m)"
    "\<forall>j. i \<le> j \<and> j < index m \<longrightarrow> \<not> declaration_at text j"
proof -
  from search_Some [OF assms] obtain rest where
    i: "i \<le> index m" "index m \<le> length text" and
    p: "less_pattern (drop (index m) text) = Some (m1 m, m2 m, rest)" and
    w: "m0 m = take (length text - index m - length rest) (drop (index m) text)" and
    before: "\<forall>j. i \<le> j \<and> j < index m \<longrightarrow> less_pattern (drop j text) = None"
    by blast
  from less_pattern_sound [OF p] obtain ws1 ws2 where
    d: "drop (index m) text = CHR ''@'' # m1 m @ ws1 @ CHR '':'' # ws2 @ m2 m @ rest" and
    c: "m1 m \<noteq> []" "list_all name_char (m1 m)" "list_all space_char ws1"
       "list_all space_char ws2" "m2 m \<noteq> []" "list_all value_char (m2 m)"
    by blast
  let ?w = "CHR ''@'' # m1 m @ ws1 @ CHR '':'' # ws2 @ m2 m"
  have dw: "drop (index m) text = ?w @ rest" using d by simp
  have "length (drop (index m) text) = length ?w + length rest"
    by (simp only: dw length_append)
  then have len: "length text - index m - length rest = length ?w" by simp
  have whole: "m0 m = ?w" unfolding w len dw by simp
  have "length text - index m = length ?w + length rest"
    using \<open>length (drop (index m) text) = length ?w + length rest\<close> by simp
  then have bound: "index m + length (m0 m) \<le> length text" using i(2) whole by simp
  have tk: "take (length (m0 m)) (drop (index m) text) = m0 m"
    unfolding dw whole by simp
  show "is_declaration text m"
    unfolding is_declaration_def using whole c bound tk by blast
  show "i \<le> index m" by (rule i(1))
  show "0 < length (m0 m)" using whole by simp
  show "\<forall>j. i \<le> j \<and> j < index m \<longrightarrow> \<not> declaration_at text j"
    using before declaration_matches by blast
qed

lemma search_less_None:
  assumes "search less_pattern text i = None" "i \<le> j"
  shows "\<not> declaration_at text j"
proof
  assume d: "declaration_at text j"
  then have "j \<le> length text" using declaration_in_text [OF d] by simp
  from search_None [OF assms this] declaration_matches [OF d] show False by simp
qed

subsection \<open>getAll returns the declarations of the text\<close>

lemma getAll_loop_less:
  assumes "pattern rx = less_pattern"
  shows "\<exists>ms. getAll_loop rx t acc = Some (acc @ ms, rx\<lparr>lastIndex := 0\<rparr>)
           \<and> (\<forall>m \<in> set ms. lastIndex rx \<le> index m \<and> is_declaration t m)
           \<and> sorted_wrt (\<lambda>a b. index a + length (m0 a) \<le> index b) ms
           \<and> (\<forall>i. lastIndex rx \<le> i \<and> declaration_at t i \<longrightarrow>
                  (\<exists>m \<in> set ms. index m \<le> i \<and> i < index m + length (m0 m)))"
  using assms
proof (induction "Suc (length t) - lastIndex rx" arbitrary: rx acc rule: less_induct)
  case less
  note pat = less.prems
  show ?case
  proof (cases "search less_pattern t (lastIndex rx)")
    case None
    then have "getAll_loop rx t acc = Some (acc @ [], rx\<lparr>lastIndex := 0\<rparr>)"
      by (subst getAll_loop.simps) (simp add: exec_def pat)
    moreover have "\<forall>i. lastIndex rx \<le> i \<and> declaration_at t i \<longrightarrow>
        (\<exists>m \<in> set []. index m \<le> i \<and> i < index m + length (m0 m))"
      using search_less_None [OF None] by blast
    ultimately show ?thesis by (intro exI [of _ "[]"]) simp
  next
    case (Some m)
    let ?rx = "rx\<lparr>lastIndex := index m + length (m0 m)\<rparr>"
    note s = search_less_Some [OF Some]
    from s(1) have bound: "index m + length (m0 m) \<le> length t"
      by (simp add: is_declaration_def)
    have step: "getAll_loop rx t acc = getAll_loop ?rx t (acc @ [m])"
      by (subst getAll_loop.simps) (simp add: exec_def pat Some)
    have smaller: "Suc (length t) - lastIndex ?rx < Suc (length t) - lastIndex rx"
    proof -
      have "lastIndex ?rx = index m + length (m0 m)" by simp
      with s(2,3) bound show ?thesis by linarith
    qed
    have pat': "pattern ?rx = less_pattern" using pat by simp
    from less.hyps [OF smaller pat', of "acc @ [m]"] obtain ms where
      r: "getAll_loop ?rx t (acc @ [m]) = Some ((acc @ [m]) @ ms, ?rx\<lparr>lastIndex := 0\<rparr>)" and
      each: "\<forall>m' \<in> set ms. index m + length (m0 m) \<le> index m' \<and> is_declaration t m'" and
      ord: "sorted_wrt (\<lambda>a b. index a + length (m0 a) \<le> index b) ms" and
      all: "\<forall>i. index m + length (m0 m) \<le> i \<and> declaration_at t i \<longrightarrow>
             (\<exists>m' \<in> set ms. index m' \<le> i \<and> i < index m' + length (m0 m'))"
      by auto
    have res: "getAll_loop rx t acc = Some (acc @ (m # ms), rx\<lparr>lastIndex := 0\<rparr>)"
      using step r by simp
    have each': "\<forall>m' \<in> set (m # ms). lastIndex rx \<le> index m' \<and> is_declaration t m'"
      using each s(1,2) by auto
    have ord': "sorted_wrt (\<lambda>a b. index a + length (m0 a) \<le> index b) (m # ms)"
      using ord each by simp
    have all': "\<forall>i. lastIndex rx \<le> i \<and> declaration_at t i \<longrightarrow>
             (\<exists>m' \<in> set (m # ms). index m' \<le> i \<and> i < index m' + length (m0 m'))"
    proof (intro allI impI)
      fix i assume i: "lastIndex rx \<le> i \<and> declaration_at t i"
      then have ge: "index m \<le> i" using s(4) by (meson not_le_imp_less)
      show "\<exists>m' \<in> set (m # ms). index m' \<le> i \<and> i < index m' + length (m0 m')"
      proof (cases "i < index m + length (m0 m)")
        case True
        with ge show ?thesis by simp
      next
        case False
        with i all have "\<exists>m' \<in> set ms. index m' \<le> i \<and> i < index m' + length (m0 m')"
          by simp
        then show ?thesis by auto
      qed
    qed
    from res each' ord' all' show ?thesis by blast
  qed
qed

lemma getAll_less_total:
  "pattern rx = less_pattern \<Longrightarrow> \<exists>ms. getAll rx t = Some (ms, rx\<lparr>lastIndex := 0\<rparr>)"
  using getAll_loop_less [of rx t "[]"] by (auto simp: getAll_def)

lemma LESSHint_regex: "pattern (regex LESSHint) = less_pattern" "lastIndex (regex LESSHint) = 0"
  "regex LESSHint\<lparr>lastIndex := 0\<rparr> = regex LESSHint"
  by (simp_all add: LESSHint_def)

lemma example_matches:
  "map_option fst (getAll (regex LESSHint) example_text) = Some [color_match, bg_color_match]"
  by code_simp

text \<open>
  Claim C8. For every text, \<^verbatim>\<open>getAll\<close> with the pattern of the provider returns:
  every entry is an occurrence of the pattern (\<^verbatim>\<open>@\<close>, name characters, optional white
  space, a colon, optional white space, value characters) at its index; the entries are in
  the order of the text and do not overlap; and every index where the pattern occurs is
  the index of an entry or lies inside an earlier entry, so no occurrence is dropped
  because its name or value was seen before. The loop ends for every text, and it leaves
  \<^verbatim>\<open>lastIndex\<close> at 0, so the next call scans the whole text again.
\<close>

theorem getAll_declarations:
  "\<exists>ms. getAll (regex LESSHint) t = Some (ms, regex LESSHint)
     \<and> (\<forall>m \<in> set ms. is_declaration t m)
     \<and> sorted_wrt (\<lambda>a b. index a + length (m0 a) \<le> index b) ms
     \<and> (\<forall>i. declaration_at t i \<longrightarrow>
           (\<exists>m \<in> set ms. index m = i)
           \<or> (\<exists>m \<in> set ms. index m < i \<and> i < index m + length (m0 m)))"
proof -
  from getAll_loop_less [OF LESSHint_regex(1), of t "[]"] obtain ms where
    r: "getAll (regex LESSHint) t = Some (ms, regex LESSHint)" and
    each: "\<forall>m \<in> set ms. is_declaration t m" and
    ord: "sorted_wrt (\<lambda>a b. index a + length (m0 a) \<le> index b) ms" and
    all: "\<forall>i. declaration_at t i \<longrightarrow>
            (\<exists>m \<in> set ms. index m \<le> i \<and> i < index m + length (m0 m))"
    by (auto simp: getAll_def LESSHint_regex)
  have "\<forall>i. declaration_at t i \<longrightarrow>
           (\<exists>m \<in> set ms. index m = i)
           \<or> (\<exists>m \<in> set ms. index m < i \<and> i < index m + length (m0 m))"
  proof (intro allI impI)
    fix i assume "declaration_at t i"
    with all obtain m where "m \<in> set ms" "index m \<le> i" "i < index m + length (m0 m)"
      by blast
    then show "(\<exists>m \<in> set ms. index m = i)
           \<or> (\<exists>m \<in> set ms. index m < i \<and> i < index m + length (m0 m))"
      by (cases "index m = i") auto
  qed
  with r each ord show ?thesis by blast
qed

lemma twice_matches:
  "map_option fst (getAll (regex LESSHint) twice_text)
     = Some [\<lparr>index = 0, m0 = ''@a: 1'', m1 = ''a'', m2 = ''1''\<rparr>,
             \<lparr>index = 7, m0 = ''@a: 1'', m1 = ''a'', m2 = ''1''\<rparr>]"
  by code_simp

theorem getAll_declarations_witness:
  "getAll (regex LESSHint) twice_text
     = Some ([\<lparr>index = 0, m0 = ''@a: 1'', m1 = ''a'', m2 = ''1''\<rparr>,
              \<lparr>index = 7, m0 = ''@a: 1'', m1 = ''a'', m2 = ''1''\<rparr>], regex LESSHint)"
proof -
  from getAll_declarations [of twice_text] obtain ms
    where "getAll (regex LESSHint) twice_text = Some (ms, regex LESSHint)" by blast
  with twice_matches show ?thesis by simp
qed


subsection \<open>hasHints\<close>

lemma typing_state_eq:
  "typing_state = LESSHint\<lparr>editor := Some 0, startPos := Some \<lparr>line = 2, ch = 12\<rparr>\<rparr>"
  by (simp add: typing_state_def hasHints_def editor_host_def Let_def)

lemma typing_state_fields:
  "editor typing_state = Some 0" "startPos typing_state = Some \<lparr>line = 2, ch = 12\<rparr>"
  "regex typing_state = regex LESSHint" "chars typing_state = hint_char"
  "implicitChar typing_state = ''@''" "pattern (regex typing_state) = less_pattern"
  by (simp_all add: typing_state_eq LESSHint_def)

text \<open>
  Claim C6, as amended. For every inserted character different from \<^verbatim>\<open>@\<close>, and when
  no character was inserted, \<^verbatim>\<open>hasHints\<close> returns false. The call still assigns
  \<^verbatim>\<open>editor\<close> and \<^verbatim>\<open>startPos\<close>, the position of the cursor at the call; every
  other field of the provider is unchanged.
\<close>

theorem hasHints_other_char:
  "implicitChar this = ''@'' \<Longrightarrow> typed \<noteq> Some ''@'' \<Longrightarrow>
     hasHints this h ed typed
       = (False, this\<lparr>editor := Some ed, startPos := Some (cursorPosOf h ed)\<rparr>)"
  by (cases typed) (auto simp: hasHints_def Let_def)

theorem hasHints_other_char_witness:
  "implicitChar LESSHint = ''@'' \<and> Some ''a'' \<noteq> Some ''@''
   \<and> hasHints LESSHint (editor_host example_lines \<lparr>line = 0, ch = 3\<rparr>) 0 (Some ''a'')
       = (False, LESSHint\<lparr>editor := Some 0, startPos := Some \<lparr>line = 0, ch = 3\<rparr>\<rparr>)"
proof -
  have a: "implicitChar LESSHint = ''@''" by (simp add: LESSHint_def)
  have b: "Some ''a'' \<noteq> Some ''@''" by simp
  from hasHints_other_char [OF a b, of "editor_host example_lines \<lparr>line = 0, ch = 3\<rparr>" 0] a b
  show ?thesis by (simp add: editor_host_def)
qed

text \<open>
  Claim C6 as it is written asks that the provider is unchanged when \<^verbatim>\<open>hasHints\<close>
  returns false. During a session started at line 2, column 12, a call with the character
  \<^verbatim>\<open>a\<close> and the cursor at line 0, column 3 returns false and replaces the recorded
  \<^verbatim>\<open>startPos\<close>.
\<close>

theorem hasHints_other_char_counterexample:
  "fst (hasHints typing_state (editor_host example_lines \<lparr>line = 0, ch = 3\<rparr>) 0 (Some ''a''))
     = False
   \<and> startPos typing_state = Some \<lparr>line = 2, ch = 12\<rparr>
   \<and> startPos (snd (hasHints typing_state (editor_host example_lines \<lparr>line = 0, ch = 3\<rparr>) 0
         (Some ''a''))) = Some \<lparr>line = 0, ch = 3\<rparr>
   \<and> snd (hasHints typing_state (editor_host example_lines \<lparr>line = 0, ch = 3\<rparr>) 0 (Some ''a''))
       \<noteq> typing_state"
proof -
  let ?r = "hasHints typing_state (editor_host example_lines \<lparr>line = 0, ch = 3\<rparr>) 0 (Some ''a'')"
  have f: "fst ?r = False"
    by (simp add: hasHints_def Let_def typing_state_fields)
  have s: "startPos (snd ?r) = Some \<lparr>line = 0, ch = 3\<rparr>"
    by (simp add: hasHints_def Let_def editor_host_def)
  have "startPos (snd ?r) \<noteq> startPos typing_state"
    unfolding s typing_state_fields by simp
  then have "snd ?r \<noteq> typing_state" by auto
  with f s typing_state_fields(2) show ?thesis by simp
qed

subsection \<open>validPosition and the typed character\<close>

lemma test_single: "test cls [c] = cls c"
  by (simp add: test_def)

lemma validPosition_rejected:
  "\<not> test (chars this) (c # cs) \<Longrightarrow> validPosition this h (Some (c # cs)) = Inr (False, this)"
  by (simp add: validPosition_def)

lemma validPosition_accepted:
  "test (chars this) cs \<Longrightarrow> validPosition this h (Some cs) = validPosition this h None"
  by (simp add: validPosition_def)

lemma getHints_invalid:
  "validPosition this h typed = Inr (False, this') \<Longrightarrow>
     getHints this h typed = Some (Inr (None, this'))"
  by (simp add: getHints_def)

lemma getHints_valid:
  assumes "validPosition this h typed = Inr (True, this')" "editor this' = Some ed"
    "pattern (regex this') = less_pattern"
  shows "\<exists>ms. getAll (regex this') (documentText h ed) = Some (ms, regex this'\<lparr>lastIndex := 0\<rparr>)
           \<and> getHints this h typed
               = Some (Inr (Some \<lparr>r_hints = hintsHTML (processHints
                                     (this'\<lparr>regex := regex this'\<lparr>lastIndex := 0\<rparr>\<rparr>)
                                     (filterHints this' ms)),
                                  r_match = None, selectInitial = True,
                                  handleWideResults = False\<rparr>,
                            processHints (this'\<lparr>regex := regex this'\<lparr>lastIndex := 0\<rparr>\<rparr>)
                              (filterHints this' ms)))"
proof -
  from getAll_less_total [OF assms(3), of "documentText h ed"] obtain ms
    where ms: "getAll (regex this') (documentText h ed) = Some (ms, regex this'\<lparr>lastIndex := 0\<rparr>)"
    by blast
  have f: "filterHints (this'\<lparr>regex := rx\<rparr>) ms = filterHints this' ms" for rx
    by (simp add: filterHints_def)
  show ?thesis
    using ms assms(1,2) by (intro exI [of _ ms]) (simp add: getHints_def getText_def Let_def f)
qed

lemma writtenSinceStart_processHints:
  "writtenSinceStart (processHints this ms) = writtenSinceStart this"
  by (simp add: processHints_def Let_def)

text \<open>
  Claim C5, as amended. The characters the check accepts are \<^verbatim>\<open>@\<close>, the letters
  \<^verbatim>\<open>a\<close> to \<^verbatim>\<open>z\<close> and \<^verbatim>\<open>A\<close> to \<^verbatim>\<open>Z\<close>, the digits, the hyphen and
  the underscore. For every other typed character \<^verbatim>\<open>validPosition\<close> returns false
  and \<^verbatim>\<open>getHints\<close> returns \<^verbatim>\<open>null\<close> with the provider unchanged, so nothing is
  extracted; for a character of the set the check passes and the result is the one of a
  call without a typed character, decided by the position of the cursor.
\<close>

theorem validPosition_typed_char:
  assumes "chars this = hint_char"
  shows "if c = CHR ''@'' \<or> (CHR ''a'' \<le> c \<and> c \<le> CHR ''z'') \<or> (CHR ''A'' \<le> c \<and> c \<le> CHR ''Z'')
            \<or> (CHR ''0'' \<le> c \<and> c \<le> CHR ''9'') \<or> c = CHR ''_'' \<or> c = CHR ''-''
         then validPosition this h (Some [c]) = validPosition this h None
         else validPosition this h (Some [c]) = Inr (False, this)
              \<and> getHints this h (Some [c]) = Some (Inr (None, this))"
proof (cases "hint_char c")
  case True
  then have "test (chars this) [c]" using assms by (simp add: test_single)
  from validPosition_accepted [OF this] True show ?thesis
    by (auto simp: hint_char_def word_char_def)
next
  case False
  then have "\<not> test (chars this) [c]" using assms by (simp add: test_single)
  from validPosition_rejected [OF this] have r: "validPosition this h (Some [c]) = Inr (False, this)" .
  from r getHints_invalid [OF r] False show ?thesis
    by (auto simp: hint_char_def word_char_def)
qed

theorem validPosition_typed_char_witness:
  "chars typing_state = hint_char
   \<and> validPosition typing_state (editor_host example_lines \<lparr>line = 2, ch = 13\<rparr>) (Some ''!'')
       = Inr (False, typing_state)
   \<and> getHints typing_state (editor_host example_lines \<lparr>line = 2, ch = 13\<rparr>) (Some ''!'')
       = Some (Inr (None, typing_state))"
  using validPosition_typed_char [OF typing_state_fields(4), of "CHR ''!''"
      "editor_host example_lines \<lparr>line = 2, ch = 13\<rparr>"]
  by (simp add: typing_state_fields)

text \<open>
  Claim C5 as it is written counts the underscore among the characters that end the
  session. With the underscore typed after \<^verbatim>\<open>@\<close>, \<^verbatim>\<open>validPosition\<close> returns true,
  the written text becomes the underscore, and \<^verbatim>\<open>getHints\<close> does not return
  \<^verbatim>\<open>null\<close>.
\<close>

lemma underscore_range:
  "documentRange (editor_host underscore_lines \<lparr>line = 2, ch = 13\<rparr>)
     \<lparr>line = 2, ch = 12\<rparr> \<lparr>line = 2, ch = 13\<rparr> = ''_''"
  by (simp add: editor_host_def underscore_lines_def)

theorem validPosition_underscore_counterexample:
  "validPosition typing_state (editor_host underscore_lines \<lparr>line = 2, ch = 13\<rparr>) (Some ''_'')
     = Inr (True, typing_state\<lparr>writtenSinceStart := ''_''\<rparr>)
   \<and> getHints typing_state (editor_host underscore_lines \<lparr>line = 2, ch = 13\<rparr>) (Some ''_'')
       \<noteq> Some (Inr (None, typing_state))"
proof -
  let ?h = "editor_host underscore_lines \<lparr>line = 2, ch = 13\<rparr>"
  let ?t = "typing_state\<lparr>writtenSinceStart := ''_''\<rparr>"
  have "test (chars typing_state) ''_''"
    by (simp add: typing_state_fields test_def hint_char_def word_char_def)
  then have v: "validPosition typing_state ?h (Some ''_'') = Inr (True, ?t)"
    using underscore_range
    by (simp add: validPosition_def typing_state_fields Let_def)
       (simp add: editor_host_def)
  have e: "editor ?t = Some 0" by (simp add: typing_state_fields)
  have p: "pattern (regex ?t) = less_pattern" using typing_state_fields(6) by simp
  from getHints_valid [OF v e p]
  have "getHints typing_state ?h (Some ''_'') \<noteq> Some (Inr (None, typing_state))" by auto
  with v show ?thesis by simp
qed

subsection \<open>validPosition and the cursor\<close>

text \<open>
  Claim C7. With the editor and \<^verbatim>\<open>startPos\<close> recorded by \<^verbatim>\<open>hasHints\<close>: whenever
  the cursor is on another line than \<^verbatim>\<open>startPos\<close>, or on its line at a column before
  it, \<^verbatim>\<open>validPosition\<close> returns false and \<^verbatim>\<open>getHints\<close> returns \<^verbatim>\<open>null\<close>;
  on the same line at a column at or after it, with no typed character or one that the
  check accepts, \<^verbatim>\<open>validPosition\<close> returns true, \<^verbatim>\<open>writtenSinceStart\<close> becomes
  the range of the document from \<^verbatim>\<open>startPos\<close> to the cursor, and \<^verbatim>\<open>getHints\<close>
  returns a result computed with this written text.
\<close>

theorem validPosition_cursor:
  assumes "editor this = Some ed" "startPos this = Some start"
    "pattern (regex this) = less_pattern"
  shows "(line (cursorPosOf h ed) \<noteq> line start \<or> ch (cursorPosOf h ed) < ch start \<longrightarrow>
            validPosition this h typed = Inr (False, this)
            \<and> getHints this h typed = Some (Inr (None, this)))
       \<and> (line (cursorPosOf h ed) = line start \<and> ch start \<le> ch (cursorPosOf h ed)
           \<and> (typed = None \<or> typed = Some [] \<or> (\<exists>c. typed = Some c \<and> test (chars this) c)) \<longrightarrow>
            validPosition this h typed
              = Inr (True, this\<lparr>writtenSinceStart := documentRange h start (cursorPosOf h ed)\<rparr>)
            \<and> (\<exists>response this'.
                  getHints this h typed = Some (Inr (Some response, this'))
                  \<and> writtenSinceStart this' = documentRange h start (cursorPosOf h ed)))"
proof (intro conjI impI)
  assume away: "line (cursorPosOf h ed) \<noteq> line start \<or> ch (cursorPosOf h ed) < ch start"
  then show v: "validPosition this h typed = Inr (False, this)"
    using assms(1,2) by (auto simp: validPosition_def Let_def)
  from getHints_invalid [OF v] show "getHints this h typed = Some (Inr (None, this))" .
next
  let ?w = "documentRange h start (cursorPosOf h ed)"
  assume at: "line (cursorPosOf h ed) = line start \<and> ch start \<le> ch (cursorPosOf h ed)
           \<and> (typed = None \<or> typed = Some [] \<or> (\<exists>c. typed = Some c \<and> test (chars this) c))"
  then show v: "validPosition this h typed = Inr (True, this\<lparr>writtenSinceStart := ?w\<rparr>)"
    using assms(1,2) by (auto simp: validPosition_def Let_def)
  have e: "editor (this\<lparr>writtenSinceStart := ?w\<rparr>) = Some ed" using assms(1) by simp
  have p: "pattern (regex (this\<lparr>writtenSinceStart := ?w\<rparr>)) = less_pattern"
    using assms(3) by simp
  from getHints_valid [OF v e p] obtain ms where
    "getHints this h typed
       = Some (Inr (Some \<lparr>r_hints = hintsHTML (processHints
             (this\<lparr>writtenSinceStart := ?w\<rparr>\<lparr>regex := regex (this\<lparr>writtenSinceStart := ?w\<rparr>)\<lparr>lastIndex := 0\<rparr>\<rparr>)
             (filterHints (this\<lparr>writtenSinceStart := ?w\<rparr>) ms)),
           r_match = None, selectInitial = True, handleWideResults = False\<rparr>,
         processHints
           (this\<lparr>writtenSinceStart := ?w\<rparr>\<lparr>regex := regex (this\<lparr>writtenSinceStart := ?w\<rparr>)\<lparr>lastIndex := 0\<rparr>\<rparr>)
           (filterHints (this\<lparr>writtenSinceStart := ?w\<rparr>) ms)))"
    by blast
  moreover have "writtenSinceStart (processHints
           (this\<lparr>writtenSinceStart := ?w\<rparr>\<lparr>regex := regex (this\<lparr>writtenSinceStart := ?w\<rparr>)\<lparr>lastIndex := 0\<rparr>\<rparr>)
           (filterHints (this\<lparr>writtenSinceStart := ?w\<rparr>) ms)) = ?w"
    by (simp add: writtenSinceStart_processHints)
  ultimately show "\<exists>response this'.
                  getHints this h typed = Some (Inr (Some response, this'))
                  \<and> writtenSinceStart this' = ?w"
    by blast
qed

lemma example_lines_matches:
  "map_option fst (getAll (regex LESSHint) (join_lines example_lines))
     = Some [color_match, bg_color_match]"
  by code_simp

lemma filter_c:
  "filterHints (this\<lparr>writtenSinceStart := ''c''\<rparr>) [color_match, bg_color_match]
     = [color_match, bg_color_match]"
  by (simp add: filterHints_def split_empty_def lower_examples color_match_def bg_color_match_def
        substr_def Let_def)

lemma filter_sigil_c:
  "filterHints (this\<lparr>writtenSinceStart := ''@c''\<rparr>) [color_match, bg_color_match] = []"
  by (simp add: filterHints_def split_empty_def lower_examples color_match_def bg_color_match_def
        substr_def Let_def)

lemma sorted_two:
  "array_sort compareMatches [color_match, bg_color_match] = [bg_color_match, color_match]"
  by (simp add: array_sort_def compareMatches_def color_match_def bg_color_match_def
        lower_examples)

lemma example_range:
  "documentRange (editor_host example_lines \<lparr>line = 2, ch = 13\<rparr>)
     \<lparr>line = 2, ch = 12\<rparr> \<lparr>line = 2, ch = 13\<rparr> = ''c''"
  by (simp add: editor_host_def example_lines_def)

lemma getHints_example:
  "getHints typing_state (editor_host example_lines \<lparr>line = 2, ch = 13\<rparr>) (Some ''c'')
     = Some (Inr (Some \<lparr>r_hints = hintsHTML shown_state, r_match = None, selectInitial = True,
                         handleWideResults = False\<rparr>, shown_state))"
proof -
  let ?h = "editor_host example_lines \<lparr>line = 2, ch = 13\<rparr>"
  let ?t = "typing_state\<lparr>writtenSinceStart := ''c''\<rparr>"
  have c: "test (chars typing_state) ''c''"
    by (simp add: typing_state_fields test_def hint_char_def word_char_def)
  have cur: "cursorPosOf ?h 0 = \<lparr>line = 2, ch = 13\<rparr>" by (simp add: editor_host_def)
  have v: "validPosition typing_state ?h (Some ''c'') = Inr (True, ?t)"
    using c example_range by (simp add: validPosition_def typing_state_fields Let_def cur)
  have e: "editor ?t = Some 0" by (simp add: typing_state_fields)
  have p: "pattern (regex ?t) = less_pattern" using typing_state_fields(6) by simp
  have rx: "regex ?t\<lparr>lastIndex := 0\<rparr> = regex ?t" "regex ?t = regex LESSHint"
    by (simp_all add: typing_state_fields LESSHint_def)
  have doc: "documentText ?h 0 = join_lines example_lines" by (simp add: editor_host_def)
  from getHints_valid [OF v e p] obtain ms where
    ms: "getAll (regex ?t) (documentText ?h 0) = Some (ms, regex ?t\<lparr>lastIndex := 0\<rparr>)" and
    g: "getHints typing_state ?h (Some ''c'')
          = Some (Inr (Some \<lparr>r_hints = hintsHTML (processHints
                (?t\<lparr>regex := regex ?t\<lparr>lastIndex := 0\<rparr>\<rparr>) (filterHints ?t ms)),
              r_match = None, selectInitial = True, handleWideResults = False\<rparr>,
            processHints (?t\<lparr>regex := regex ?t\<lparr>lastIndex := 0\<rparr>\<rparr>) (filterHints ?t ms)))"
    by blast
  from ms example_lines_matches have "ms = [color_match, bg_color_match]"
    by (simp add: rx doc)
  moreover have "?t\<lparr>regex := regex ?t\<lparr>lastIndex := 0\<rparr>\<rparr> = ?t"
    by (simp add: typing_state_eq LESSHint_def)
  ultimately show ?thesis using g by (simp add: filter_c shown_state_def)
qed

theorem validPosition_cursor_witness:
  "editor typing_state = Some 0 \<and> startPos typing_state = Some \<lparr>line = 2, ch = 12\<rparr>
   \<and> pattern (regex typing_state) = less_pattern
   \<and> validPosition typing_state (editor_host example_lines \<lparr>line = 1, ch = 13\<rparr>) None
       = Inr (False, typing_state)
   \<and> getHints typing_state (editor_host example_lines \<lparr>line = 1, ch = 13\<rparr>) None
       = Some (Inr (None, typing_state))
   \<and> validPosition typing_state (editor_host example_lines \<lparr>line = 2, ch = 13\<rparr>) (Some ''c'')
       = Inr (True, typing_state\<lparr>writtenSinceStart := ''c''\<rparr>)
   \<and> getHints typing_state (editor_host example_lines \<lparr>line = 2, ch = 13\<rparr>) (Some ''c'')
       = Some (Inr (Some \<lparr>r_hints = hintsHTML shown_state, r_match = None,
                            selectInitial = True, handleWideResults = False\<rparr>, shown_state))"
proof -
  note f = typing_state_fields(1,2,6)
  have c: "test (chars typing_state) ''c''"
    by (simp add: typing_state_fields test_def hint_char_def word_char_def)
  have cur: "cursorPosOf (editor_host example_lines p) 0 = p" for p
    by (simp add: editor_host_def)
  from validPosition_cursor [OF f, of "editor_host example_lines \<lparr>line = 1, ch = 13\<rparr>" None]
  have away: "validPosition typing_state (editor_host example_lines \<lparr>line = 1, ch = 13\<rparr>) None
       = Inr (False, typing_state)"
    "getHints typing_state (editor_host example_lines \<lparr>line = 1, ch = 13\<rparr>) None
       = Some (Inr (None, typing_state))"
    by (simp_all add: cur)
  from validPosition_cursor [OF f, of "editor_host example_lines \<lparr>line = 2, ch = 13\<rparr>" "Some ''c''"] c
  have at: "validPosition typing_state (editor_host example_lines \<lparr>line = 2, ch = 13\<rparr>) (Some ''c'')
       = Inr (True, typing_state\<lparr>writtenSinceStart := ''c''\<rparr>)"
    by (simp add: cur example_range)
  from f away at getHints_example show ?thesis by simp
qed

subsection \<open>insertHint\<close>

lemma shown_state_fields:
  "hints shown_state = [''bg-color'', ''color'']"
  "hintsHTML shown_state
     = [''bg-color<span style='color:#a0a0a0; margin-left: 10px'>blue</span>'',
        ''color<span style='color:#a0a0a0; margin-left: 10px'>red</span>'']"
  "editor shown_state = Some 0" "startPos shown_state = Some \<lparr>line = 2, ch = 12\<rparr>"
  unfolding shown_state_def hints_processHints hintsHTML_processHints sorted_two
  by (simp_all add: color_match_def bg_color_match_def renderHint_def processHints_def Let_def
        typing_state_fields)

text \<open>
  Claim C2, as amended. \<^verbatim>\<open>insertHint\<close> has no test for a display form that is not in
  \<^verbatim>\<open>hintsHTML\<close>: the index is -1, the text looked up in \<^verbatim>\<open>hints\<close> is
  \<^verbatim>\<open>undefined\<close>, and the provider still makes one call of \<^verbatim>\<open>replaceRange\<close> on the
  current document, for the range from \<^verbatim>\<open>startPos\<close> to the cursor, with this undefined
  text. The fields of the provider are not assigned.
\<close>

theorem insertHint_unknown:
  "hint \<notin> set (hintsHTML this) \<Longrightarrow> editor this = Some ed \<Longrightarrow>
     insertHint this h hint = Inr [ReplaceRange None (startPos this) (cursorPosOf h ed)]"
  by (simp add: insertHint_def Let_def element_def indexOf_none [THEN iffD2])

theorem insertHint_unknown_witness:
  "''color'' \<notin> set (hintsHTML shown_state) \<and> editor shown_state = Some 0
   \<and> insertHint shown_state (editor_host example_lines \<lparr>line = 2, ch = 13\<rparr>) ''color''
       = Inr [ReplaceRange None (Some \<lparr>line = 2, ch = 12\<rparr>) \<lparr>line = 2, ch = 13\<rparr>]"
proof -
  have a: "''color'' \<notin> set (hintsHTML shown_state)" by (simp add: shown_state_fields)
  have b: "editor shown_state = Some 0" by (rule shown_state_fields)
  from insertHint_unknown [OF a b, of "editor_host example_lines \<lparr>line = 2, ch = 13\<rparr>"] a b
  show ?thesis by (simp add: shown_state_fields editor_host_def)
qed

text \<open>
  Claim C2 as it is written asks for no replacement at all. For the string
  \<^verbatim>\<open>bg-color\<close>, a name and not a display form of the list, the call of
  \<^verbatim>\<open>replaceRange\<close> is made.
\<close>

theorem insertHint_unknown_counterexample:
  "''bg-color'' \<notin> set (hintsHTML shown_state)
   \<and> insertHint shown_state (editor_host example_lines \<lparr>line = 2, ch = 13\<rparr>) ''bg-color''
       = Inr [ReplaceRange None (Some \<lparr>line = 2, ch = 12\<rparr>) \<lparr>line = 2, ch = 13\<rparr>]
   \<and> insertHint shown_state (editor_host example_lines \<lparr>line = 2, ch = 13\<rparr>) ''bg-color''
       \<noteq> Inr []"
  by (simp add: insertHint_def Let_def element_def shown_state_fields editor_host_def)

lemma name_char_not_lt: "name_char c \<Longrightarrow> c \<noteq> CHR ''<''"
  by (auto simp: name_char_def word_char_def)

lemma renderHint_name:
  "list_all name_char (m1 m) \<Longrightarrow> takeWhile (\<lambda>c. c \<noteq> CHR ''<'') (renderHint m) = m1 m"
proof -
  assume "list_all name_char (m1 m)"
  then have "\<forall>c \<in> set (m1 m). c \<noteq> CHR ''<''"
    by (auto simp: list_all_iff dest: name_char_not_lt)
  then show ?thesis
    by (simp add: renderHint_def takeWhile_append2)
qed

lemma indexOf_first:
  assumes "i < length xs"
  shows "\<exists>j. indexOf xs (xs ! i) = int j \<and> j \<le> i \<and> xs ! j = xs ! i"
proof -
  have "xs ! i \<in> set xs" using assms by simp
  from indexOf_split [OF this] obtain pre post where
    p: "xs = pre @ (xs ! i) # post" "xs ! i \<notin> set pre" "indexOf xs (xs ! i) = int (length pre)"
    by blast
  have "length pre \<le> i"
  proof (rule ccontr)
    assume "\<not> length pre \<le> i"
    then have lt: "i < length pre" by simp
    have "xs ! i = (pre @ (xs ! i) # post) ! i" using p(1) by simp
    also have "\<dots> = pre ! i" using lt by (simp add: nth_append)
    finally have "xs ! i \<in> set pre" using lt by (metis nth_mem)
    with p(2) show False by simp
  qed
  moreover have "xs ! length pre = xs ! i"
  proof -
    have "xs ! length pre = (pre @ (xs ! i) # post) ! length pre" using p(1) by simp
    then show ?thesis by simp
  qed
  ultimately show ?thesis using p(3) by blast
qed

lemma insertHint_rendered:
  assumes "hints this = map m1 ms" "hintsHTML this = map renderHint ms"
    "\<forall>m \<in> set ms. list_all name_char (m1 m)" "editor this = Some ed" "i < length ms"
  shows "insertHint this h (hintsHTML this ! i)
           = Inr [ReplaceRange (Some (m1 (ms ! i))) (startPos this) (cursorPosOf h ed)]"
proof -
  have il: "i < length (hintsHTML this)" using assms(2,5) by simp
  from indexOf_first [OF il] obtain j where
    j: "indexOf (hintsHTML this) (hintsHTML this ! i) = int j" "j \<le> i"
       "hintsHTML this ! j = hintsHTML this ! i"
    by blast
  have jl: "j < length ms" using j(2) assms(5) by simp
  from j(3) have "renderHint (ms ! j) = renderHint (ms ! i)" using assms(2,5) jl by simp
  then have "takeWhile (\<lambda>c. c \<noteq> CHR ''<'') (renderHint (ms ! j))
               = takeWhile (\<lambda>c. c \<noteq> CHR ''<'') (renderHint (ms ! i))" by simp
  moreover have "list_all name_char (m1 (ms ! j))" "list_all name_char (m1 (ms ! i))"
    using assms(3,5) jl by simp_all
  ultimately have same: "m1 (ms ! j) = m1 (ms ! i)" by (simp add: renderHint_name)
  have "element (hints this) (int j) = Some (m1 (ms ! i))"
    using jl same by (simp add: element_def assms(1))
  then show ?thesis using j(1) assms(4) by (simp add: insertHint_def Let_def)
qed

text \<open>
  Claim C9. After \<^verbatim>\<open>processHints\<close> on matches of the pattern, for every index \<open>i\<close>
  of \<^verbatim>\<open>hintsHTML\<close>, \<^verbatim>\<open>insertHint\<close> with the display form at \<open>i\<close> makes one call of
  \<^verbatim>\<open>replaceRange\<close>, for the range from \<^verbatim>\<open>startPos\<close> to the cursor, with the text
  \<^verbatim>\<open>hints[i]\<close>, the name of the \<open>i\<close>-th sorted match: the value of the declaration is
  not part of the text inserted.
\<close>

theorem insertHint_shown:
  assumes "this = processHints this0 matches"
    "\<forall>m \<in> set matches. list_all name_char (m1 m)"
    "editor this = Some ed" "i < length (hintsHTML this)"
  shows "insertHint this h (hintsHTML this ! i)
           = Inr [ReplaceRange (Some (hints this ! i)) (startPos this) (cursorPosOf h ed)]
         \<and> hints this ! i = m1 (array_sort compareMatches matches ! i)"
proof -
  let ?ms = "array_sort compareMatches matches"
  have hs: "hints this = map m1 ?ms" and hh: "hintsHTML this = map renderHint ?ms"
    using assms(1) by (simp_all add: hints_processHints hintsHTML_processHints)
  have i: "i < length ?ms" using assms(4) hh by simp
  have names: "\<forall>m \<in> set ?ms. list_all name_char (m1 m)"
    using assms(2) by (simp add: array_sort_sort_key)
  from insertHint_rendered [OF hs hh names assms(3) i] i hs show ?thesis by simp
qed

lemma example_names: "\<forall>m \<in> set [color_match, bg_color_match]. list_all name_char (m1 m)"
  by (simp add: color_match_def bg_color_match_def name_char_def word_char_def)

theorem insertHint_shown_witness:
  "insertHint shown_state (editor_host example_lines \<lparr>line = 2, ch = 13\<rparr>)
       ''bg-color<span style='color:#a0a0a0; margin-left: 10px'>blue</span>''
     = Inr [ReplaceRange (Some ''bg-color'') (Some \<lparr>line = 2, ch = 12\<rparr>) \<lparr>line = 2, ch = 13\<rparr>]"
proof -
  have i: "0 < length (hintsHTML shown_state)" by (simp add: shown_state_fields)
  from insertHint_shown [OF shown_state_def example_names shown_state_fields(3) i,
      of "editor_host example_lines \<lparr>line = 2, ch = 13\<rparr>"]
  show ?thesis by (simp add: shown_state_fields editor_host_def)
qed

text \<open>
  The hypotheses on the provider hold after every call of \<^verbatim>\<open>getHints\<close> that returns
  hints: the names of the matches of \<^verbatim>\<open>getAll\<close> are made of name characters, so
  every display form returned can be selected and inserts the name at its index.
\<close>

lemma getAll_names:
  assumes "getAll rx t = Some (ms, rx')" "pattern rx = less_pattern"
  shows "\<forall>m \<in> set ms. list_all name_char (m1 m)"
proof -
  from getAll_loop_less [OF assms(2), of t "[]"] assms(1)
  have "\<forall>m \<in> set ms. is_declaration t m" by (auto simp: getAll_def)
  then show ?thesis by (simp add: is_declaration_def)
qed

lemma validPosition_True:
  assumes "validPosition this h typed = Inr (True, this')"
  shows "\<exists>ed start. editor this = Some ed \<and> startPos this = Some start
           \<and> this' = this\<lparr>writtenSinceStart := documentRange h start (cursorPosOf h ed)\<rparr>"
  using assms
  by (auto simp: validPosition_def Let_def split: if_splits option.splits)

lemma getHints_insertHint:
  assumes "getHints this0 h typed = Some (Inr (Some response, this))"
    "pattern (regex this0) = less_pattern" "i < length (r_hints response)"
  shows "\<exists>ed. editor this = Some ed
           \<and> r_hints response = hintsHTML this
           \<and> insertHint this h' (r_hints response ! i)
               = Inr [ReplaceRange (Some (hints this ! i)) (startPos this) (cursorPosOf h' ed)]"
proof -
  from assms(1) obtain this1 where v: "validPosition this0 h typed = Inr (True, this1)"
    by (auto simp: getHints_def split: sum.splits bool.splits prod.splits)
  from validPosition_True [OF v] obtain ed start where
    e: "editor this0 = Some ed" and
    t1: "this1 = this0\<lparr>writtenSinceStart := documentRange h start (cursorPosOf h ed)\<rparr>"
    by blast
  have e1: "editor this1 = Some ed" and p1: "pattern (regex this1) = less_pattern"
    using e assms(2) t1 by simp_all
  from getHints_valid [OF v e1 p1] assms(1) obtain ms where
    ms: "getAll (regex this1) (documentText h ed) = Some (ms, regex this1\<lparr>lastIndex := 0\<rparr>)" and
    r: "response = \<lparr>r_hints = hintsHTML this, r_match = None, selectInitial = True,
                     handleWideResults = False\<rparr>" and
    t: "this = processHints (this1\<lparr>regex := regex this1\<lparr>lastIndex := 0\<rparr>\<rparr>) (filterHints this1 ms)"
    by auto
  let ?ms = "array_sort compareMatches (filterHints this1 ms)"
  have names: "\<forall>m \<in> set ?ms. list_all name_char (m1 m)"
    using getAll_names [OF ms p1] by (simp add: array_sort_sort_key filterHints_def)
  have hs: "hints this = map m1 ?ms" and hh: "hintsHTML this = map renderHint ?ms"
    by (simp_all add: t hints_processHints hintsHTML_processHints)
  have ed: "editor this = Some ed" using e1 by (simp add: t processHints_def Let_def)
  have i: "i < length ?ms" using assms(3) r hh by simp
  from insertHint_rendered [OF hs hh names ed i, of h'] r i hs ed show ?thesis by simp
qed

subsection \<open>The example of two declarations\<close>

lemma lowerChar_sigil: "lowerChar c = CHR ''@'' \<Longrightarrow> c = CHR ''@''"
proof (rule ccontr)
  assume l: "lowerChar c = CHR ''@''" and n: "c \<noteq> CHR ''@''"
  let ?n = "of_char c :: nat"
  from l n have range: "(65 \<le> ?n \<and> ?n \<le> 90) \<or> (192 \<le> ?n \<and> ?n \<le> 222 \<and> ?n \<noteq> 215)"
    and eq: "char_of (?n + 32) = CHR ''@''"
    by (auto simp: lowerChar_def Let_def split: if_splits)
  from eq have "(of_char (char_of (?n + 32) :: char) :: nat) = of_char CHR ''@''" by simp
  then have "(?n + 32) mod 256 = 64" by simp
  with range show False by auto
qed

lemma name_char_not_sigil: "name_char c \<Longrightarrow> c \<noteq> CHR ''@''"
  by (auto simp: name_char_def word_char_def)

lemma filterHints_sigil:
  assumes "CHR ''@'' \<in> set (writtenSinceStart this)" "\<forall>m \<in> set ms. list_all name_char (m1 m)"
  shows "filterHints this ms = []"
proof -
  have low: "lowerChar CHR ''@'' = CHR ''@''" by code_simp
  have w: "CHR ''@'' \<in> set (toLowerCase (writtenSinceStart this))"
    using assms(1) low by (force simp: toLowerCase_def)
  have "\<not> subseq (toLowerCase (writtenSinceStart this)) (toLowerCase (m1 m))" if "m \<in> set ms" for m
  proof
    assume "subseq (toLowerCase (writtenSinceStart this)) (toLowerCase (m1 m))"
    with w have "CHR ''@'' \<in> set (toLowerCase (m1 m))"
      by (auto dest: list_emb_set)
    then obtain c where c: "c \<in> set (m1 m)" "lowerChar c = CHR ''@''"
      by (auto simp: toLowerCase_def)
    from c(1) that assms(2) have "name_char c" by (auto simp: list_all_iff)
    with lowerChar_sigil [OF c(2)] name_char_not_sigil show False by blast
  qed
  then show ?thesis
    by (simp add: filterHints_def split_empty_def written_in_subseq)
qed

text \<open>
  Claim C1 as it is written takes the written text \<^verbatim>\<open>@c\<close>. The text
  \<^verbatim>\<open>@color: red;\<close>, line feed, \<^verbatim>\<open>@bg-color: blue;\<close> has the two declarations, and
  with \<^verbatim>\<open>@c\<close> the filter keeps none of them: \<^verbatim>\<open>@\<close> is looked for in the name
  like every other character and no name holds it.
\<close>

theorem example_with_sigil_counterexample:
  "map_option fst (getAll (regex LESSHint) example_text) = Some [color_match, bg_color_match]
   \<and> filterHints (LESSHint\<lparr>writtenSinceStart := ''@c''\<rparr>) [color_match, bg_color_match] = []
   \<and> hints (processHints (LESSHint\<lparr>writtenSinceStart := ''@c''\<rparr>)
        (filterHints (LESSHint\<lparr>writtenSinceStart := ''@c''\<rparr>) [color_match, bg_color_match]))
      \<noteq> [''bg-color'', ''color'']"
  by (simp add: example_matches filter_sigil_c hints_processHints array_sort_def)

text \<open>
  Claim C1, as amended. For the same text and the written text \<^verbatim>\<open>c\<close>, the text after
  the sigil, the filter keeps both declarations and the sorted names are \<^verbatim>\<open>bg-color\<close>,
  \<^verbatim>\<open>color\<close>; with the written text \<^verbatim>\<open>@c\<close> the filter returns the empty list.
\<close>

theorem example_without_sigil:
  "map_option fst (getAll (regex LESSHint) example_text) = Some [color_match, bg_color_match]
   \<and> filterHints (LESSHint\<lparr>writtenSinceStart := ''c''\<rparr>) [color_match, bg_color_match]
       = [color_match, bg_color_match]
   \<and> hints (processHints (LESSHint\<lparr>writtenSinceStart := ''c''\<rparr>)
        (filterHints (LESSHint\<lparr>writtenSinceStart := ''c''\<rparr>) [color_match, bg_color_match]))
      = [''bg-color'', ''color'']
   \<and> filterHints (LESSHint\<lparr>writtenSinceStart := ''@c''\<rparr>) [color_match, bg_color_match] = []"
  unfolding example_matches filter_c filter_sigil_c hints_processHints sorted_two
  by (simp add: color_match_def bg_color_match_def)

end
